theory Spec2Isabelle
  imports Complex_Main "HOL-Library.Multiset"
begin

section \<open>The limited global rate limiter of nextcore\<close>

text \<open>
  A shallow embedding of \<^verbatim>\<open>nextcore/http/global_rate_limiter/limited.py\<close>: the class
  \<^verbatim>\<open>LimitedGlobalRateLimiter\<close> with its methods \<^verbatim>\<open>__init__\<close>, \<^verbatim>\<open>acquire\<close>,
  \<^verbatim>\<open>_reset\<close> and \<^verbatim>\<open>update\<close>. Python integers are \<open>int\<close>. The object's fields, the
  event loop's view of the object (scheduled timers, resolved futures) and the logger's
  output are one record that every method takes and returns.
\<close>

subsection \<open>Queue entries and the priority queue\<close>

type_synonym future = nat

text \<open>
  Modelled from the spec: the class \<^verbatim>\<open>PriorityRequestContainer\<close>
  (\<^verbatim>\<open>priority_request_container.py\<close>) is imported by the source and is not part of it.
  The spec's QueueEntry has a priority, a monotonic insertion counter \<open>sequence\<close> that
  breaks priority ties in arrival order, and a single-fire completion handle.
\<close>

record PriorityRequestContainer =
  priority :: int
  sequence :: nat
  future :: future

text \<open>
  Modelled from the spec: the ordering of \<^verbatim>\<open>PriorityRequestContainer\<close>: lower priority
  value first, ties by insertion sequence.
\<close>

definition container_less :: "PriorityRequestContainer \<Rightarrow> PriorityRequestContainer \<Rightarrow> bool" where
  "container_less a b =
     (priority a < priority b \<or> (priority a = priority b \<and> sequence a < sequence b))"

text \<open>
  \<^verbatim>\<open>queue.PriorityQueue\<close> of the standard library: \<^verbatim>\<open>get_nowait\<close> returns a least
  entry under the entries' ordering and raises \<^verbatim>\<open>queue.Empty\<close> on an empty queue. The
  queue is the list of its entries in arrival order; \<open>least c cs\<close> is the first least
  entry of \<open>c # cs\<close>. (\<^verbatim>\<open>task_done\<close> only moves the counter that \<^verbatim>\<open>join\<close> reads, which
  this class never calls.)
\<close>

datatype error = Empty | InvalidStateError

fun least :: "PriorityRequestContainer \<Rightarrow> PriorityRequestContainer list \<Rightarrow> PriorityRequestContainer" where
  "least c [] = c"
| "least c (x # xs) = (if container_less x c then least x xs else least c xs)"

definition qsize :: "PriorityRequestContainer list \<Rightarrow> int" where
  "qsize q = int (length q)"

definition put_nowait ::
  "PriorityRequestContainer list \<Rightarrow> PriorityRequestContainer \<Rightarrow> PriorityRequestContainer list" where
  "put_nowait q item = q @ [item]"

definition get_nowait ::
  "PriorityRequestContainer list \<Rightarrow> error + PriorityRequestContainer \<times> PriorityRequestContainer list" where
  "get_nowait q =
     (case q of
        [] \<Rightarrow> Inl Empty
      | c # cs \<Rightarrow> Inr (least c cs, remove1 (least c cs) q))"

subsection \<open>The limiter's state\<close>

text \<open>What \<^verbatim>\<open>logger.debug\<close> and \<^verbatim>\<open>logger.warning\<close> are called with, one constructor per call site.\<close>

datatype log_record =
  Calculated_remaining int
  | Reserved_requests int
  | Added_to_queue int
  | Out_of_queue
  | Releasing int
  | Exceeded_global_rate_limit real

text \<open>
  The first five fields are the object's (\<^verbatim>\<open>_pending_requests\<close>, \<^verbatim>\<open>_reserved_requests\<close>
  and \<^verbatim>\<open>_pending_reset\<close> without their underscore). \<open>timers\<close> counts the
  \<^verbatim>\<open>loop.call_later(1, self._reset)\<close> handles that have not fired; \<open>resolved\<close> lists the
  futures on which \<^verbatim>\<open>set_result\<close> was called and whose waiter has not run again yet,
  in the order of the calls; \<open>next_future\<close> names the next \<^verbatim>\<open>Future()\<close>; \<open>logged\<close> is the
  logger's output. A future is pending, finished or cancelled, as in \<^verbatim>\<open>asyncio\<close>:
  \<open>finished\<close> lists the futures that were given a result, \<open>cancelled\<close> those that were
  cancelled, and a future in neither list is pending.
\<close>

text \<open>
  Modelled from the spec: the field \<open>next_sequence\<close>, the monotonic insertion counter from
  which a \<^verbatim>\<open>PriorityRequestContainer\<close> takes its \<open>sequence\<close> when it is constructed
  (\<^verbatim>\<open>priority_request_container.py\<close> is not part of the source). Every other field is
  from the source.
\<close>

record state =
  limit :: int
  remaining :: int
  pending_requests :: "PriorityRequestContainer list"
  reserved_requests :: int
  pending_reset :: bool
  timers :: nat
  resolved :: "future list"
  finished :: "future list"
  cancelled :: "future list"
  next_future :: nat
  next_sequence :: nat
  logged :: "log_record list"

subsection \<open>The methods\<close>

text \<open>\<^verbatim>\<open>__init__\<close> (lines 46 to 51): \<^verbatim>\<open>remaining\<close> is assigned the literal 50.\<close>

definition init :: "int \<Rightarrow> state" where
  "init l =
     \<lparr>limit = l, remaining = 50, pending_requests = [], reserved_requests = 0,
      pending_reset = False, timers = 0, resolved = [], finished = [], cancelled = [],
      next_future = 0, next_sequence = 0, logged = []\<rparr>"

text \<open>
  \<^verbatim>\<open>acquire\<close> up to its first suspension point (lines 55 to 69 and the \<^verbatim>\<open>yield\<close>): the
  caller is either admitted, or left waiting on a fresh future that has been queued.
  \<^verbatim>\<open>PriorityRequestContainer(priority, future)\<close> takes the next insertion sequence, as the
  spec's QueueEntry does.
\<close>

datatype gate = Admitted | Suspended future

definition admit :: "state \<Rightarrow> state" where
  "admit w = w\<lparr>reserved_requests := reserved_requests w + 1\<rparr>"

definition acquire_enter :: "int \<Rightarrow> state \<Rightarrow> gate \<times> state" where
  "acquire_enter p w =
     (let calculated_remaining = remaining w - reserved_requests w;
          w1 = w\<lparr>logged := logged w @
                 [Calculated_remaining calculated_remaining,
                  Reserved_requests (reserved_requests w)]\<rparr>
      in if calculated_remaining = 0 then
           (let fut = next_future w1;
                item = \<lparr>priority = p, sequence = next_sequence w1, future = fut\<rparr>
            in (Suspended fut,
                w1\<lparr>pending_requests := put_nowait (pending_requests w1) item,
                   next_future := Suc fut,
                   next_sequence := Suc (next_sequence w1),
                   logged := logged w1 @ [Added_to_queue p]\<rparr>))
         else (Admitted, admit w1))"

text \<open>A waiter whose future was resolved runs again (lines 67 and 69).\<close>

definition resume :: "state \<Rightarrow> state" where
  "resume w = admit (w\<lparr>logged := logged w @ [Out_of_queue]\<rparr>)"

text \<open>The \<^verbatim>\<open>finally\<close> block of \<^verbatim>\<open>acquire\<close> (lines 72 to 80).\<close>

definition on_exit :: "state \<Rightarrow> state" where
  "on_exit w =
     (let w1 = (if \<not> pending_reset w
                then w\<lparr>pending_reset := True, timers := Suc (timers w)\<rparr>
                else w)
      in w1\<lparr>reserved_requests := reserved_requests w1 - 1,
            remaining := remaining w1 - 1\<rparr>)"

text \<open>
  The gated operation, run by the caller inside \<^verbatim>\<open>async with limiter.acquire()\<close>, ends
  by returning, by raising, or by being cancelled; it may change the state on its way.
\<close>

datatype ('x, 'a) outcome = Returned 'a | Raised 'x | Cancelled

text \<open>
  Lines 69 to 80 around a gated operation: the increment, then \<^verbatim>\<open>try: yield None\<close>
  with the body, then \<^verbatim>\<open>finally\<close>. An exception of the body is thrown into the
  generator at the \<^verbatim>\<open>yield\<close>, the \<^verbatim>\<open>finally\<close> block runs, and the same exception leaves
  the context manager.
\<close>

definition acquire_scope ::
  "(state \<Rightarrow> ('x, 'a) outcome \<times> state) \<Rightarrow> state \<Rightarrow> ('x, 'a) outcome \<times> state" where
  "acquire_scope body w =
     (case body (admit w) of
        (Returned v, w') \<Rightarrow> (Returned v, on_exit w')
      | (Raised x, w') \<Rightarrow> (Raised x, on_exit w')
      | (Cancelled, w') \<Rightarrow> (Cancelled, on_exit w'))"

text \<open>
  \<^verbatim>\<open>future.set_result(None)\<close> (line 97): \<^verbatim>\<open>asyncio\<close> raises \<^verbatim>\<open>InvalidStateError\<close>
  when the future is not pending; a pending future becomes finished and its waiter is
  scheduled to run again.
\<close>

definition set_result :: "future \<Rightarrow> state \<Rightarrow> error + state" where
  "set_result f w =
     (if f \<in> set (finished w) \<or> f \<in> set (cancelled w) then Inl InvalidStateError
      else Inr (w\<lparr>resolved := resolved w @ [f], finished := finished w @ [f]\<rparr>))"

text \<open>
  \<^verbatim>\<open>_reset\<close> (lines 82 to 102) returns or raises, and the object keeps what was assigned
  before the exception: the result is the exception, if any, and the state. \<open>release n\<close>
  is the loop \<^verbatim>\<open>for _ in range(n)\<close>: \<^verbatim>\<open>get_nowait\<close>, \<^verbatim>\<open>task_done\<close>,
  \<^verbatim>\<open>future.set_result(None)\<close>; when \<^verbatim>\<open>set_result\<close> raises, the entry has already been
  taken from the queue. \<^verbatim>\<open>range\<close> of a negative number is empty, hence \<open>nat\<close>.
\<close>

fun release :: "nat \<Rightarrow> state \<Rightarrow> error option \<times> state" where
  "release 0 w = (None, w)"
| "release (Suc n) w =
     (case get_nowait (pending_requests w) of
        Inl e \<Rightarrow> (Some e, w)
      | Inr (container, q) \<Rightarrow>
          (case set_result (future container) (w\<lparr>pending_requests := q\<rparr>) of
             Inl e \<Rightarrow> (Some e, w\<lparr>pending_requests := q\<rparr>)
           | Inr w' \<Rightarrow> release n w'))"

definition to_release :: "state \<Rightarrow> int" where
  "to_release w = min (qsize (pending_requests w)) (remaining w - reserved_requests w)"

definition reset :: "state \<Rightarrow> error option \<times> state" where
  "reset w =
     (let w1 = w\<lparr>pending_reset := False\<rparr>;
          w2 = w1\<lparr>remaining := limit w1\<rparr>;
          n = to_release w2;
          w3 = w2\<lparr>logged := logged w2 @ [Releasing n]\<rparr>
      in case release (nat n) w3 of
           (Some e, w4) \<Rightarrow> (Some e, w4)
         | (None, w4) \<Rightarrow>
             (None, if qsize (pending_requests w4) \<noteq> 0
                    then w4\<lparr>pending_reset := True, timers := Suc (timers w4)\<rparr>
                    else w4))"

text \<open>
  The task of a waiter is cancelled while it is suspended at \<^verbatim>\<open>await future\<close> (line 66):
  \<^verbatim>\<open>asyncio\<close> cancels the future when it is pending, and otherwise throws the cancellation
  into the task when it would have run again. Either way the lines after line 66 do not
  run, and \<^verbatim>\<open>acquire\<close> has no handler that takes the entry out of the queue.
\<close>

definition cancel_waiter :: "future \<Rightarrow> state \<Rightarrow> state" where
  "cancel_waiter f w =
     (if f \<in> set (finished w) then w\<lparr>resolved := remove1 f (resolved w)\<rparr>
      else if f \<in> set (cancelled w) then w
      else w\<lparr>cancelled := cancelled w @ [f]\<rparr>)"

text \<open>\<^verbatim>\<open>update\<close> (lines 104 and 105): one warning.\<close>

definition update :: "real \<Rightarrow> state \<Rightarrow> state" where
  "update retry_after w = w\<lparr>logged := logged w @ [Exceeded_global_rate_limit retry_after]\<rparr>"

subsection \<open>Executions\<close>

text \<open>
  What can happen to a limiter, one event per uninterrupted run of code between two
  suspension points of the event loop: a task calls \<^verbatim>\<open>acquire\<close> with a priority; a
  released waiter runs again; an admitted scope exits; a scheduled timer fires and runs
  \<^verbatim>\<open>_reset\<close>; \<^verbatim>\<open>update\<close> is called. \<open>in_scope\<close> counts the admitted scopes that have not
  exited. \<open>step\<close> is \<open>None\<close> for an event that cannot happen in the state: an exit with no
  scope open, a timer firing with none scheduled, a waiter running with no future
  resolved. When a timer callback raises, the event loop reports the exception and goes
  on with the state the callback left. Cancelling a waiter is not an event of these
  executions (the spec leaves cancellation to an extension); \<open>cancel_waiter\<close> gives its
  effect on a state.
\<close>

datatype event = Acquire int | Resume | Exit | Fire | Update real

record world =
  limiter :: state
  in_scope :: nat

definition start :: "int \<Rightarrow> world" where
  "start l = \<lparr>limiter = init l, in_scope = 0\<rparr>"

fun step :: "event \<Rightarrow> world \<Rightarrow> world option" where
  "step (Acquire p) s =
     (case acquire_enter p (limiter s) of
        (Admitted, w) \<Rightarrow> Some \<lparr>limiter = w, in_scope = Suc (in_scope s)\<rparr>
      | (Suspended f, w) \<Rightarrow> Some \<lparr>limiter = w, in_scope = in_scope s\<rparr>)"
| "step Resume s =
     (case resolved (limiter s) of
        [] \<Rightarrow> None
      | f # fs \<Rightarrow> Some \<lparr>limiter = resume ((limiter s)\<lparr>resolved := fs\<rparr>), in_scope = Suc (in_scope s)\<rparr>)"
| "step Exit s =
     (if in_scope s = 0 then None
      else Some \<lparr>limiter = on_exit (limiter s), in_scope = in_scope s - 1\<rparr>)"
| "step Fire s =
     (if timers (limiter s) = 0 then None
      else Some \<lparr>limiter = snd (reset ((limiter s)\<lparr>timers := timers (limiter s) - 1\<rparr>)),
                 in_scope = in_scope s\<rparr>)"
| "step (Update retry_after) s = Some \<lparr>limiter = update retry_after (limiter s), in_scope = in_scope s\<rparr>"

fun run :: "world \<Rightarrow> event list \<Rightarrow> world option" where
  "run s [] = Some s"
| "run s (e # es) = (case step e s of None \<Rightarrow> None | Some s' \<Rightarrow> run s' es)"


text \<open>
  What \<open>n\<close> successive calls of \<^verbatim>\<open>get_nowait\<close> take from a queue, in the order they take
  it, and what they leave (fewer than \<open>n\<close> entries when the queue runs empty).
\<close>

fun pops ::
  "nat \<Rightarrow> PriorityRequestContainer list
     \<Rightarrow> PriorityRequestContainer list \<times> PriorityRequestContainer list" where
  "pops 0 q = ([], q)"
| "pops (Suc n) q =
     (case get_nowait q of
        Inl e \<Rightarrow> ([], q)
      | Inr (c, q') \<Rightarrow> (c # fst (pops n q'), snd (pops n q')))"




section \<open>The queue releases in priority order, ties in arrival order\<close>

text \<open>
  \<open>least\<close> returns an entry of the queue that no entry precedes. When the queue is in
  arrival order, that entry is the head of the queue sorted by priority with the stable
  sort \<open>sort_key\<close>, and removing it leaves the tail of the sorted queue.
\<close>

lemma least_mem: "least c cs \<in> set (c # cs)"
  by (induction cs arbitrary: c) auto









text \<open>What successive calls of \<^verbatim>\<open>get_nowait\<close> take and leave.\<close>

lemma pops_empty: "pops n [] = ([], [])"
  by (cases n) (simp_all add: get_nowait_def)

lemma pops_mset: "mset (fst (pops n q)) + mset (snd (pops n q)) = mset q"
proof (induction n arbitrary: q)
  case 0
  then show ?case by simp
next
  case (Suc n)
  show ?case
  proof (cases q)
    case Nil
    then show ?thesis by (simp add: get_nowait_def)
  next
    case (Cons c cs)
    define m where "m = least c cs"
    define rq where "rq = remove1 m q"
    have min: "m \<in> set q" unfolding m_def Cons by (rule least_mem)
    have g: "get_nowait q = Inr (m, rq)" by (simp add: get_nowait_def Cons m_def rq_def)
    have p: "pops (Suc n) q = (m # fst (pops n rq), snd (pops n rq))" using g by simp
    have "mset (fst (pops n rq)) + mset (snd (pops n rq)) = mset rq" by (rule Suc.IH)
    moreover have "add_mset m (mset rq) = mset q" unfolding rq_def using min by simp
    ultimately show ?thesis unfolding p by simp
  qed
qed

lemma pops_length: "length (fst (pops n q)) = min n (length q)"
proof (induction n arbitrary: q)
  case 0
  then show ?case by simp
next
  case (Suc n)
  show ?case
  proof (cases q)
    case Nil
    then show ?thesis by (simp add: get_nowait_def)
  next
    case (Cons c cs)
    define m where "m = least c cs"
    define rq where "rq = remove1 m q"
    have min: "m \<in> set q" unfolding m_def Cons by (rule least_mem)
    have g: "get_nowait q = Inr (m, rq)" by (simp add: get_nowait_def Cons m_def rq_def)
    have p: "pops (Suc n) q = (m # fst (pops n rq), snd (pops n rq))" using g by simp
    have "length rq = length q - 1" unfolding rq_def using min by (simp only: length_remove1 if_True)
    moreover have "length (fst (pops n rq)) = min n (length rq)" by (rule Suc.IH)
    ultimately show ?thesis unfolding p using Cons by simp
  qed
qed




section \<open>The release loop and the callback\<close>

text \<open>
  Whether it returns or raises, the loop changes only the queue and the futures it
  resolved. It returns, having resolved what it took, when each entry it takes waits on
  its own pending future.
\<close>

lemma release_frame:
  "\<exists>q r. snd (release n w) =
     w\<lparr>pending_requests := q, resolved := resolved w @ r, finished := finished w @ r\<rparr>"
proof (induction n arbitrary: w)
  case 0
  have "w = w\<lparr>pending_requests := pending_requests w, resolved := resolved w @ [],
      finished := finished w @ []\<rparr>" by simp
  then have "snd (release 0 w) = w\<lparr>pending_requests := pending_requests w,
      resolved := resolved w @ [], finished := finished w @ []\<rparr>" by simp
  then show ?case by blast
next
  case (Suc n)
  show ?case
  proof (cases "get_nowait (pending_requests w)")
    case (Inl e)
    have "w = w\<lparr>pending_requests := pending_requests w, resolved := resolved w @ [],
      finished := finished w @ []\<rparr>" by simp
    then have "snd (release (Suc n) w) = w\<lparr>pending_requests := pending_requests w,
      resolved := resolved w @ [], finished := finished w @ []\<rparr>" using Inl by simp
    then show ?thesis by blast
  next
    case (Inr cq)
    obtain c q where cq: "cq = (c, q)" by (cases cq)
    show ?thesis
    proof (cases "future c \<in> set (finished w) \<or> future c \<in> set (cancelled w)")
      case True
      then have "snd (release (Suc n) w) = w\<lparr>pending_requests := q\<rparr>"
        using Inr cq by (simp add: set_result_def)
      then have "snd (release (Suc n) w) = w\<lparr>pending_requests := q,
        resolved := resolved w @ [], finished := finished w @ []\<rparr>" by simp
      then show ?thesis by blast
    next
      case False
      define w1 where "w1 = w\<lparr>pending_requests := q, resolved := resolved w @ [future c],
        finished := finished w @ [future c]\<rparr>"
      have "release (Suc n) w = release n w1"
        using Inr cq False by (simp add: set_result_def w1_def)
      moreover from Suc.IH[of w1] obtain q' r where
        "snd (release n w1) = w1\<lparr>pending_requests := q', resolved := resolved w1 @ r,
           finished := finished w1 @ r\<rparr>" by blast
      ultimately have "snd (release (Suc n) w) = w\<lparr>pending_requests := q',
        resolved := resolved w @ (future c # r), finished := finished w @ (future c # r)\<rparr>"
        by (simp add: w1_def)
      then show ?thesis by blast
    qed
  qed
qed

lemma release_pops:
  assumes "n \<le> length (pending_requests w)"
    and "distinct (map future (fst (pops n (pending_requests w))))"
    and "\<forall>c \<in> set (fst (pops n (pending_requests w))).
           future c \<notin> set (finished w) \<and> future c \<notin> set (cancelled w)"
  shows "release n w =
     (None, w\<lparr>pending_requests := snd (pops n (pending_requests w)),
              resolved := resolved w @ map future (fst (pops n (pending_requests w))),
              finished := finished w @ map future (fst (pops n (pending_requests w)))\<rparr>)"
  using assms
proof (induction n arbitrary: w)
  case 0
  then show ?case by simp
next
  case (Suc n)
  then obtain c cs where q: "pending_requests w = c # cs" by (cases "pending_requests w") auto
  define m where "m = least c cs"
  define rq where "rq = remove1 m (pending_requests w)"
  define P where "P = fst (pops n rq)"
  define R where "R = snd (pops n rq)"
  have min: "m \<in> set (pending_requests w)" unfolding m_def q by (rule least_mem)
  have g: "get_nowait (pending_requests w) = Inr (m, rq)"
    by (simp add: get_nowait_def q m_def rq_def)
  have p: "pops (Suc n) (pending_requests w) = (m # P, R)" using g by (simp add: P_def R_def)
  from Suc.prems(2) have d: "distinct (map future P)" "future m \<notin> future ` set P"
    unfolding p by simp_all
  from Suc.prems(3) have pend: "future m \<notin> set (finished w)" "future m \<notin> set (cancelled w)"
    "\<forall>c \<in> set P. future c \<notin> set (finished w) \<and> future c \<notin> set (cancelled w)"
    unfolding p by simp_all
  define w1 where "w1 = w\<lparr>pending_requests := rq, resolved := resolved w @ [future m],
        finished := finished w @ [future m]\<rparr>"
  have f1: "pending_requests w1 = rq" "resolved w1 = resolved w @ [future m]"
    "finished w1 = finished w @ [future m]" "cancelled w1 = cancelled w"
    unfolding w1_def by simp_all
  have s: "release (Suc n) w = release n w1"
    using g pend(1,2) by (simp add: set_result_def w1_def)
  have "length rq = length (pending_requests w) - 1"
    unfolding rq_def using min by (simp only: length_remove1 if_True)
  with Suc.prems(1) have l1: "n \<le> length (pending_requests w1)" unfolding f1 by simp
  have d1: "distinct (map future (fst (pops n (pending_requests w1))))"
    unfolding f1 using d(1) by (simp add: P_def)
  have p1: "\<forall>c \<in> set (fst (pops n (pending_requests w1))).
           future c \<notin> set (finished w1) \<and> future c \<notin> set (cancelled w1)"
    unfolding f1 P_def[symmetric] using pend(3) d(2) by (auto simp: image_iff)
  from Suc.IH[OF l1 d1 p1] have "release n w1 =
     (None, w1\<lparr>pending_requests := R, resolved := resolved w1 @ map future P,
              finished := finished w1 @ map future P\<rparr>)"
    unfolding f1 P_def R_def .
  then have "release (Suc n) w =
     (None, w\<lparr>pending_requests := R, resolved := resolved w @ map future (m # P),
              finished := finished w @ map future (m # P)\<rparr>)"
    unfolding s by (simp add: w1_def)
  then show ?case unfolding p by simp
qed

lemma reset_frame:
  "\<exists>q r b. snd (reset w) =
      w\<lparr>remaining := limit w,
         pending_requests := q,
         pending_reset := b,
         timers := (if b then Suc (timers w) else timers w),
         resolved := resolved w @ r,
         finished := finished w @ r,
         logged := logged w @ [Releasing (to_release (w\<lparr>remaining := limit w\<rparr>))]\<rparr>"
proof -
  define n where "n = to_release (w\<lparr>remaining := limit w\<rparr>)"
  define w3 where "w3 = w\<lparr>pending_reset := False, remaining := limit w,
      logged := logged w @ [Releasing n]\<rparr>"
  have n': "to_release (w\<lparr>pending_reset := False, remaining := limit w\<rparr>) = n"
    by (simp add: to_release_def n_def)
  from release_frame[of "nat n" w3] obtain q r where
    r: "snd (release (nat n) w3) =
      w3\<lparr>pending_requests := q, resolved := resolved w3 @ r, finished := finished w3 @ r\<rparr>"
    by blast
  obtain e w4 where ew: "release (nat n) w3 = (e, w4)" by (cases "release (nat n) w3")
  with r have w4: "w4 = w3\<lparr>pending_requests := q, resolved := resolved w3 @ r,
      finished := finished w3 @ r\<rparr>" by simp
  have R: "reset w = (case (e, w4) of
           (Some e, w4) \<Rightarrow> (Some e, w4)
         | (None, w4) \<Rightarrow>
             (None, if qsize (pending_requests w4) \<noteq> 0
                    then w4\<lparr>pending_reset := True, timers := Suc (timers w4)\<rparr>
                    else w4))"
    unfolding ew[symmetric] by (simp add: reset_def Let_def n' w3_def)
  define b where "b = (e = None \<and> q \<noteq> [])"
  have "snd (reset w) =
      w\<lparr>remaining := limit w, pending_requests := q, pending_reset := b,
         timers := (if b then Suc (timers w) else timers w),
         resolved := resolved w @ r, finished := finished w @ r,
         logged := logged w @ [Releasing n]\<rparr>"
    unfolding R w4 b_def by (cases e) (simp_all add: w3_def qsize_def)
  then show ?thesis unfolding n_def by blast
qed

lemma reset_pops:
  fixes w
  defines "n \<equiv> nat (to_release (w\<lparr>remaining := limit w\<rparr>))"
  assumes "distinct (map future (fst (pops n (pending_requests w))))"
    and "\<forall>c \<in> set (fst (pops n (pending_requests w))).
           future c \<notin> set (finished w) \<and> future c \<notin> set (cancelled w)"
  shows "reset w =
     (None,
      w\<lparr>remaining := limit w,
        pending_requests := snd (pops n (pending_requests w)),
        pending_reset := (snd (pops n (pending_requests w)) \<noteq> []),
        timers := (if snd (pops n (pending_requests w)) \<noteq> [] then Suc (timers w) else timers w),
        resolved := resolved w @ map future (fst (pops n (pending_requests w))),
        finished := finished w @ map future (fst (pops n (pending_requests w))),
        logged := logged w @ [Releasing (to_release (w\<lparr>remaining := limit w\<rparr>))]\<rparr>)"
proof -
  define t where "t = to_release (w\<lparr>remaining := limit w\<rparr>)"
  define w3 where "w3 = w\<lparr>pending_reset := False, remaining := limit w,
      logged := logged w @ [Releasing t]\<rparr>"
  have n: "n = nat t" unfolding n_def t_def by simp
  have t': "to_release (w\<lparr>pending_reset := False, remaining := limit w\<rparr>) = t"
    by (simp add: to_release_def t_def)
  have f3: "pending_requests w3 = pending_requests w" "finished w3 = finished w"
    "cancelled w3 = cancelled w" "resolved w3 = resolved w"
    unfolding w3_def by simp_all
  have le: "n \<le> length (pending_requests w3)"
    unfolding n t_def f3 by (simp add: to_release_def qsize_def)
  have "release n w3 =
     (None, w3\<lparr>pending_requests := snd (pops n (pending_requests w3)),
              resolved := resolved w3 @ map future (fst (pops n (pending_requests w3))),
              finished := finished w3 @ map future (fst (pops n (pending_requests w3)))\<rparr>)"
    using le assms(2,3) unfolding f3[symmetric] by (rule release_pops)
  then have r: "release (nat t) w3 =
     (None, w3\<lparr>pending_requests := snd (pops n (pending_requests w)),
              resolved := resolved w @ map future (fst (pops n (pending_requests w))),
              finished := finished w @ map future (fst (pops n (pending_requests w)))\<rparr>)"
    unfolding f3 n .
  have "reset w = (case release (nat t) w3 of
           (Some e, w4) \<Rightarrow> (Some e, w4)
         | (None, w4) \<Rightarrow>
             (None, if qsize (pending_requests w4) \<noteq> 0
                    then w4\<lparr>pending_reset := True, timers := Suc (timers w4)\<rparr>
                    else w4))"
    by (simp add: reset_def Let_def t' w3_def)
  then show ?thesis unfolding r t_def[symmetric] by (simp add: w3_def qsize_def)
qed

section \<open>Construction\<close>

text \<open>
  C1. The spec has \<open>remaining\<close> start at the configured capacity. \<^verbatim>\<open>__init__\<close> stores the
  argument in \<open>limit\<close> and the literal 50 in \<open>remaining\<close>: constructed with limit 10, the
  limiter has 50 admissions remaining, not 10.
\<close>

theorem init_remaining_is_literal: "remaining (init 10) = 50 \<and> limit (init 10) = 10"
  by (simp add: init_def)

section \<open>The gate of acquire\<close>

text \<open>
  C3. \<^verbatim>\<open>acquire\<close> leaves its caller suspended on a queued entry exactly when
  \<open>remaining - reserved_requests\<close> is 0 at entry. When the difference is not 0, negative
  included, the caller is admitted at once: the queue is unchanged and
  \<open>reserved_requests\<close> is one more. When it is 0, an entry with the caller's priority and a
  fresh future is appended to the queue and \<open>reserved_requests\<close> is unchanged.
\<close>

theorem acquire_gate:
  "((\<exists>f. fst (acquire_enter p w) = Suspended f) \<longleftrightarrow> remaining w - reserved_requests w = 0) \<and>
   (remaining w - reserved_requests w = 0 \<longrightarrow>
      fst (acquire_enter p w) = Suspended (next_future w) \<and>
      pending_requests (snd (acquire_enter p w)) =
        pending_requests w @ [\<lparr>priority = p, sequence = next_sequence w, future = next_future w\<rparr>] \<and>
      reserved_requests (snd (acquire_enter p w)) = reserved_requests w) \<and>
   (remaining w - reserved_requests w \<noteq> 0 \<longrightarrow>
      fst (acquire_enter p w) = Admitted \<and>
      pending_requests (snd (acquire_enter p w)) = pending_requests w \<and>
      reserved_requests (snd (acquire_enter p w)) = reserved_requests w + 1)"
  by (simp add: acquire_enter_def Let_def admit_def put_nowait_def)

text \<open>
  At a difference of \<open>-1\<close> (one remaining, two reserved) the caller is admitted; at a
  difference of 0 (two remaining, two reserved) the caller is queued.
\<close>

theorem acquire_gate_witness:
  "remaining ((init 1)\<lparr>remaining := 1, reserved_requests := 2\<rparr>)
     - reserved_requests ((init 1)\<lparr>remaining := 1, reserved_requests := 2\<rparr>) = - 1 \<and>
   fst (acquire_enter 0 ((init 1)\<lparr>remaining := 1, reserved_requests := 2\<rparr>)) = Admitted \<and>
   pending_requests (snd (acquire_enter 0 ((init 1)\<lparr>remaining := 1, reserved_requests := 2\<rparr>))) = [] \<and>
   reserved_requests (snd (acquire_enter 0 ((init 1)\<lparr>remaining := 1, reserved_requests := 2\<rparr>))) = 3 \<and>
   fst (acquire_enter 5 ((init 2)\<lparr>remaining := 2, reserved_requests := 2\<rparr>)) = Suspended 0 \<and>
   pending_requests (snd (acquire_enter 5 ((init 2)\<lparr>remaining := 2, reserved_requests := 2\<rparr>))) =
     [\<lparr>priority = 5, sequence = 0, future = 0\<rparr>] \<and>
   reserved_requests (snd (acquire_enter 5 ((init 2)\<lparr>remaining := 2, reserved_requests := 2\<rparr>))) = 2"
  using acquire_gate [of 0 "(init 1)\<lparr>remaining := 1, reserved_requests := 2\<rparr>"]
        acquire_gate [of 5 "(init 2)\<lparr>remaining := 2, reserved_requests := 2\<rparr>"]
  by (simp add: init_def)

section \<open>The scope of acquire\<close>

text \<open>
  C4. Whatever the gated operation does (return, raise, be cancelled) and whatever state
  it leaves, the admitted scope ends with that same outcome and with the \<^verbatim>\<open>finally\<close>
  block applied once to the state the operation left: the timer is armed if none was
  pending, and \<open>reserved_requests\<close> and \<open>remaining\<close> are one less.
\<close>

theorem acquire_scope_bookkeeping:
  assumes "body (admit w) = (r, w')"
  shows "acquire_scope body w = (r, on_exit w') \<and>
         reserved_requests (admit w) = reserved_requests w + 1 \<and>
         reserved_requests (on_exit w') = reserved_requests w' - 1 \<and>
         remaining (on_exit w') = remaining w' - 1 \<and>
         pending_reset (on_exit w') \<and>
         timers (on_exit w') = (if pending_reset w' then timers w' else Suc (timers w'))"
  using assms by (cases r) (simp_all add: acquire_scope_def on_exit_def admit_def Let_def)

text \<open>A gated operation that raises, in a fresh limiter of limit 2.\<close>

theorem acquire_scope_bookkeeping_witness:
  "acquire_scope (\<lambda>w. (Raised (7::nat) :: (nat, unit) outcome, w)) (init 2)
     = (Raised 7, on_exit (admit (init 2))) \<and>
   reserved_requests (on_exit (admit (init 2))) = 0 \<and>
   remaining (on_exit (admit (init 2))) = 49 \<and>
   pending_reset (on_exit (admit (init 2))) \<and>
   timers (on_exit (admit (init 2))) = 1"
proof -
  have h: "(\<lambda>w. (Raised (7::nat) :: (nat, unit) outcome, w)) (admit (init 2))
             = (Raised 7, admit (init 2))"
    by simp
  show ?thesis
    using acquire_scope_bookkeeping
      [of "\<lambda>w. (Raised (7::nat) :: (nat, unit) outcome, w)" "init 2" "Raised 7" "admit (init 2)"] h
    by (simp add: admit_def init_def)
qed

section \<open>The replenishment callback\<close>

text \<open>
  C5, as amended. In a state where \<open>reserved_requests \<le> limit\<close> and each entry that the
  callback takes from the queue waits on its own pending future (none was cancelled),
  every run of \<^verbatim>\<open>_reset\<close> returns, having performed exactly these steps in order: it
  clears the pending-reset flag; it sets \<open>remaining\<close> to \<open>limit\<close>; it computes \<open>to_release\<close>,
  the minimum of the queue's size and \<open>remaining - reserved_requests\<close>; it takes exactly
  \<open>to_release\<close> entries from the queue with \<^verbatim>\<open>get_nowait\<close> and resolves their futures, in
  the order it takes them; and it sets the flag and schedules one timer exactly when the
  queue is not empty afterwards. Nothing else changes but the log.
\<close>

theorem reset_steps:
  fixes w
  defines "n \<equiv> to_release (w\<lparr>remaining := limit w\<rparr>)"
  defines "popped \<equiv> fst (pops (nat n) (pending_requests w))"
  defines "rest \<equiv> snd (pops (nat n) (pending_requests w))"
  assumes "reserved_requests w \<le> limit w"
    and "distinct (map future popped)"
    and "\<forall>c \<in> set popped. future c \<notin> set (finished w) \<and> future c \<notin> set (cancelled w)"
  shows "reset w =
     (None,
      w\<lparr>remaining := limit w,
        pending_requests := rest,
        pending_reset := (rest \<noteq> []),
        timers := (if rest \<noteq> [] then Suc (timers w) else timers w),
        resolved := resolved w @ map future popped,
        finished := finished w @ map future popped,
        logged := logged w @ [Releasing n]\<rparr>) \<and>
     n = min (qsize (pending_requests w)) (limit w - reserved_requests w) \<and>
     int (length popped) = n \<and>
     mset popped + mset rest = mset (pending_requests w)"
proof -
  have 1: "reset w =
     (None,
      w\<lparr>remaining := limit w,
        pending_requests := rest,
        pending_reset := (rest \<noteq> []),
        timers := (if rest \<noteq> [] then Suc (timers w) else timers w),
        resolved := resolved w @ map future popped,
        finished := finished w @ map future popped,
        logged := logged w @ [Releasing n]\<rparr>)"
    unfolding rest_def popped_def n_def
    using assms(5,6) unfolding popped_def n_def by (rule reset_pops)
  have 2: "n = min (qsize (pending_requests w)) (limit w - reserved_requests w)"
    unfolding n_def by (simp add: to_release_def)
  have "0 \<le> n" "n \<le> int (length (pending_requests w))"
    unfolding 2 using assms(4) by (simp_all add: qsize_def)
  then have 3: "int (length popped) = n"
    unfolding popped_def pops_length by simp
  have 4: "mset popped + mset rest = mset (pending_requests w)"
    unfolding popped_def rest_def by (rule pops_mset)
  from 1 2 3 4 show ?thesis by simp
qed

text \<open>
  Limit 1, nothing reserved, A then B queued with priority 3: \<open>to_release\<close> is 1, the
  future of A is resolved, B stays queued and the timer is armed again.
\<close>

theorem reset_steps_witness:
  "\<exists>s. run (start 1) [Acquire 0, Exit, Fire, Acquire 0, Acquire 3, Acquire 3, Exit] = Some s \<and>
     reserved_requests (limiter s) \<le> limit (limiter s) \<and>
     map future (pending_requests (limiter s)) = [0, 1] \<and>
     finished (limiter s) = [] \<and> cancelled (limiter s) = [] \<and>
     to_release ((limiter s)\<lparr>remaining := limit (limiter s)\<rparr>) = 1 \<and>
     fst (reset (limiter s)) = None \<and>
     remaining (snd (reset (limiter s))) = 1 \<and>
     resolved (snd (reset (limiter s))) = [0] \<and>
     map future (pending_requests (snd (reset (limiter s)))) = [1] \<and>
     pending_reset (snd (reset (limiter s))) \<and>
     timers (snd (reset (limiter s))) = Suc (timers (limiter s))"
proof -
  define s where "s = the (run (start 1) [Acquire 0, Exit, Fire, Acquire 0, Acquire 3, Acquire 3, Exit])"
  define w where "w = limiter s"
  have "run (start 1) [Acquire 0, Exit, Fire, Acquire 0, Acquire 3, Acquire 3, Exit] \<noteq> None"
    by code_simp
  then have r: "run (start 1) [Acquire 0, Exit, Fire, Acquire 0, Acquire 3, Acquire 3, Exit] = Some s"
    unfolding s_def by simp
  have "limiter (the (run (start 1) [Acquire 0, Exit, Fire, Acquire 0, Acquire 3, Acquire 3, Exit]))
      = \<lparr>limit = 1, remaining = 0,
         pending_requests = [\<lparr>priority = 3, sequence = 0, future = 0\<rparr>,
                             \<lparr>priority = 3, sequence = 1, future = 1\<rparr>],
         reserved_requests = 0, pending_reset = True, timers = 1, resolved = [],
         finished = [], cancelled = [], next_future = 2, next_sequence = 2,
         logged = [Calculated_remaining 50, Reserved_requests 0, Releasing 0,
                   Calculated_remaining 1, Reserved_requests 0,
                   Calculated_remaining 0, Reserved_requests 1, Added_to_queue 3,
                   Calculated_remaining 0, Reserved_requests 1, Added_to_queue 3]\<rparr>"
    by code_simp
  then have w: "w = \<lparr>limit = 1, remaining = 0,
         pending_requests = [\<lparr>priority = 3, sequence = 0, future = 0\<rparr>,
                             \<lparr>priority = 3, sequence = 1, future = 1\<rparr>],
         reserved_requests = 0, pending_reset = True, timers = 1, resolved = [],
         finished = [], cancelled = [], next_future = 2, next_sequence = 2,
         logged = [Calculated_remaining 50, Reserved_requests 0, Releasing 0,
                   Calculated_remaining 1, Reserved_requests 0,
                   Calculated_remaining 0, Reserved_requests 1, Added_to_queue 3,
                   Calculated_remaining 0, Reserved_requests 1, Added_to_queue 3]\<rparr>"
    unfolding w_def s_def .
  have t: "to_release (w\<lparr>remaining := limit w\<rparr>) = 1"
    unfolding w by (simp add: to_release_def qsize_def)
  have p: "pops (nat 1) (pending_requests w) =
      ([\<lparr>priority = 3, sequence = 0, future = 0\<rparr>], [\<lparr>priority = 3, sequence = 1, future = 1\<rparr>])"
    unfolding w by (simp add: get_nowait_def container_less_def)
  have h1: "reserved_requests w \<le> limit w" unfolding w by simp
  have h2: "distinct (map future (fst (pops (nat (to_release (w\<lparr>remaining := limit w\<rparr>)))
      (pending_requests w))))"
    unfolding t p by simp
  have h3: "\<forall>c \<in> set (fst (pops (nat (to_release (w\<lparr>remaining := limit w\<rparr>))) (pending_requests w))).
      future c \<notin> set (finished w) \<and> future c \<notin> set (cancelled w)"
    unfolding t p by (simp add: w)
  from reset_steps [OF h1 h2 h3]
  have "fst (reset w) = None \<and>
     remaining (snd (reset w)) = 1 \<and>
     resolved (snd (reset w)) = [0] \<and>
     map future (pending_requests (snd (reset w))) = [1] \<and>
     pending_reset (snd (reset w)) \<and>
     timers (snd (reset w)) = Suc (timers w)"
    unfolding t p by (simp add: w)
  moreover have "map future (pending_requests w) = [0, 1]" "finished w = []" "cancelled w = []"
    unfolding w by simp_all
  ultimately show ?thesis using r h1 t unfolding w_def by (intro exI[of _ s]) simp
qed

text \<open>
  The claim as stated fails when a queued waiter was cancelled: \<^verbatim>\<open>acquire\<close> leaves its
  entry in the queue. With limit 1: one request is admitted, exits and the timer fires;
  a request is admitted and two are queued (futures 0 and 1); the admitted one exits, so
  that nothing is reserved and a timer is pending; the task of the first waiter is
  cancelled. The callback computes \<open>to_release = 1\<close>, takes the first entry, and
  \<^verbatim>\<open>set_result\<close> raises \<^verbatim>\<open>InvalidStateError\<close>: no future is resolved, the second entry is
  still queued, and the pending-reset flag is false, no timer having been armed.
\<close>

theorem reset_steps_counterexample:
  "map_option (reserved_requests \<circ> limiter)
     (run (start 1) [Acquire 0, Exit, Fire, Acquire 0, Acquire 0, Acquire 0, Exit]) = Some 0 \<and>
   map_option (map future \<circ> pending_requests \<circ> limiter)
     (run (start 1) [Acquire 0, Exit, Fire, Acquire 0, Acquire 0, Acquire 0, Exit]) = Some [0, 1] \<and>
   map_option (fst \<circ> reset \<circ> cancel_waiter 0 \<circ> limiter)
     (run (start 1) [Acquire 0, Exit, Fire, Acquire 0, Acquire 0, Acquire 0, Exit])
     = Some (Some InvalidStateError) \<and>
   map_option (last \<circ> logged \<circ> snd \<circ> reset \<circ> cancel_waiter 0 \<circ> limiter)
     (run (start 1) [Acquire 0, Exit, Fire, Acquire 0, Acquire 0, Acquire 0, Exit])
     = Some (Releasing 1) \<and>
   map_option (resolved \<circ> snd \<circ> reset \<circ> cancel_waiter 0 \<circ> limiter)
     (run (start 1) [Acquire 0, Exit, Fire, Acquire 0, Acquire 0, Acquire 0, Exit]) = Some [] \<and>
   map_option (map future \<circ> pending_requests \<circ> snd \<circ> reset \<circ> cancel_waiter 0 \<circ> limiter)
     (run (start 1) [Acquire 0, Exit, Fire, Acquire 0, Acquire 0, Acquire 0, Exit]) = Some [1] \<and>
   map_option (pending_reset \<circ> snd \<circ> reset \<circ> cancel_waiter 0 \<circ> limiter)
     (run (start 1) [Acquire 0, Exit, Fire, Acquire 0, Acquire 0, Acquire 0, Exit]) = Some False"
  by code_simp

section \<open>The notification hook\<close>

lemma fold_update: "fold update rs w = w\<lparr>logged := logged w @ map Exceeded_global_rate_limit rs\<rparr>"
  by (induction rs arbitrary: w) (simp_all add: update_def)

text \<open>
  C8. Calling \<^verbatim>\<open>update\<close> any number of times, with any durations \<open>rs\<close>, leaves
  \<open>remaining\<close>, \<open>reserved_requests\<close>, the pending-reset flag, the queue, \<open>limit\<close>, the timers
  and the resolved futures as they were; it only appends one warning per call to the log.
\<close>

theorem update_frame:
  "remaining (fold update rs w) = remaining w \<and>
   reserved_requests (fold update rs w) = reserved_requests w \<and>
   pending_reset (fold update rs w) = pending_reset w \<and>
   pending_requests (fold update rs w) = pending_requests w \<and>
   limit (fold update rs w) = limit w \<and>
   timers (fold update rs w) = timers w \<and>
   resolved (fold update rs w) = resolved w \<and>
   logged (fold update rs w) = logged w @ map Exceeded_global_rate_limit rs"
  by (simp add: fold_update)

section \<open>An idle replenishment\<close>

text \<open>
  C9. When \<^verbatim>\<open>_reset\<close> runs with an empty queue, it returns with \<open>remaining\<close> equal to
  \<open>limit\<close> and the pending-reset flag false; it schedules no timer.
\<close>

theorem reset_idle_round_trip:
  assumes "pending_requests w = []"
  shows "fst (reset w) = None \<and> remaining (snd (reset w)) = limit w \<and>
         limit (snd (reset w)) = limit w \<and> \<not> pending_reset (snd (reset w)) \<and>
         timers (snd (reset w)) = timers w \<and> pending_requests (snd (reset w)) = []"
proof -
  have "reset w =
     (None,
      w\<lparr>remaining := limit w,
        pending_requests := snd (pops (nat (to_release (w\<lparr>remaining := limit w\<rparr>))) (pending_requests w)),
        pending_reset := (snd (pops (nat (to_release (w\<lparr>remaining := limit w\<rparr>))) (pending_requests w)) \<noteq> []),
        timers := (if snd (pops (nat (to_release (w\<lparr>remaining := limit w\<rparr>))) (pending_requests w)) \<noteq> []
                   then Suc (timers w) else timers w),
        resolved := resolved w @ map future (fst (pops (nat (to_release (w\<lparr>remaining := limit w\<rparr>))) (pending_requests w))),
        finished := finished w @ map future (fst (pops (nat (to_release (w\<lparr>remaining := limit w\<rparr>))) (pending_requests w))),
        logged := logged w @ [Releasing (to_release (w\<lparr>remaining := limit w\<rparr>))]\<rparr>)"
    by (rule reset_pops) (simp_all add: assms pops_empty)
  then show ?thesis by (simp add: assms pops_empty)
qed

text \<open>A limiter of limit 3 with nothing remaining, nothing queued and the flag set.\<close>

theorem reset_idle_round_trip_witness:
  "pending_requests ((init 3)\<lparr>remaining := 0, pending_reset := True\<rparr>) = [] \<and>
   fst (reset ((init 3)\<lparr>remaining := 0, pending_reset := True\<rparr>)) = None \<and>
   remaining (snd (reset ((init 3)\<lparr>remaining := 0, pending_reset := True\<rparr>))) = 3 \<and>
   \<not> pending_reset (snd (reset ((init 3)\<lparr>remaining := 0, pending_reset := True\<rparr>)))"
proof -
  have h: "pending_requests ((init 3)\<lparr>remaining := 0, pending_reset := True\<rparr>) = []"
    by (simp add: init_def)
  from reset_idle_round_trip [OF h] h show ?thesis by (simp add: init_def)
qed

text \<open>
  C10. \<^verbatim>\<open>_reset\<close> leaves \<open>reserved_requests\<close> (and \<open>limit\<close>) unchanged, in every state,
  whether it returns or raises.
\<close>

theorem reset_keeps_reserved:
  "reserved_requests (snd (reset w)) = reserved_requests w \<and> limit (snd (reset w)) = limit w"
proof -
  from reset_frame[of w] obtain q r b where
    "snd (reset w) =
      w\<lparr>remaining := limit w, pending_requests := q, pending_reset := b,
         timers := (if b then Suc (timers w) else timers w),
         resolved := resolved w @ r, finished := finished w @ r,
         logged := logged w @ [Releasing (to_release (w\<lparr>remaining := limit w\<rparr>))]\<rparr>"
    by blast
  then show ?thesis by simp
qed

section \<open>Invariants of executions\<close>

lemma run_invariant:
  assumes "run s es = Some s'" and "P s"
    and "\<And>e a b. P a \<Longrightarrow> step e a = Some b \<Longrightarrow> P b"
  shows "P s'"
  using assms(1,2)
proof (induction es arbitrary: s)
  case Nil
  then show ?case by simp
next
  case (Cons e es)
  then obtain m where m: "step e s = Some m" "run m es = Some s'"
    by (auto split: option.splits)
  from assms(3)[OF Cons.prems(2) m(1)] have "P m" .
  with Cons.IH m(2) show ?case by blast
qed

lemma fire_shape:
  assumes "step Fire s = Some s'"
  shows "0 < timers (limiter s) \<and> in_scope s' = in_scope s \<and>
     (\<exists>q r b. limiter s' =
        (limiter s)\<lparr>remaining := limit (limiter s),
             pending_requests := q,
             pending_reset := b,
             timers := (if b then timers (limiter s) else timers (limiter s) - 1),
             resolved := resolved (limiter s) @ r,
             finished := finished (limiter s) @ r,
             logged := logged (limiter s) @
               [Releasing (to_release ((limiter s)\<lparr>remaining := limit (limiter s)\<rparr>))]\<rparr>)"
proof -
  define w where "w = (limiter s)\<lparr>timers := timers (limiter s) - 1\<rparr>"
  have t: "0 < timers (limiter s)" using assms by (auto split: if_splits)
  with assms have s': "s' = \<lparr>limiter = snd (reset w), in_scope = in_scope s\<rparr>"
    unfolding w_def by simp
  have tr: "to_release (w\<lparr>remaining := limit w\<rparr>)
      = to_release ((limiter s)\<lparr>remaining := limit (limiter s)\<rparr>)"
    by (simp add: w_def to_release_def)
  from reset_frame[of w] obtain q r b where
    r: "snd (reset w) =
      w\<lparr>remaining := limit w, pending_requests := q, pending_reset := b,
         timers := (if b then Suc (timers w) else timers w),
         resolved := resolved w @ r, finished := finished w @ r,
         logged := logged w @ [Releasing (to_release (w\<lparr>remaining := limit w\<rparr>))]\<rparr>"
    by blast
  have "limiter s' =
        (limiter s)\<lparr>remaining := limit (limiter s),
             pending_requests := q,
             pending_reset := b,
             timers := (if b then timers (limiter s) else timers (limiter s) - 1),
             resolved := resolved (limiter s) @ r,
             finished := finished (limiter s) @ r,
             logged := logged (limiter s) @
               [Releasing (to_release ((limiter s)\<lparr>remaining := limit (limiter s)\<rparr>))]\<rparr>"
    unfolding s' using r t unfolding tr by (simp add: w_def)
  moreover have "in_scope s' = in_scope s" unfolding s' by simp
  ultimately show ?thesis using t by blast
qed

lemma step_limit: "step e s = Some s' \<Longrightarrow> limit (limiter s') = limit (limiter s)"
proof (cases e)
  case Fire
  assume "step e s = Some s'"
  with Fire fire_shape[of s s'] show ?thesis by auto
qed (auto simp: acquire_enter_def Let_def admit_def resume_def on_exit_def update_def
      split: if_splits list.splits)

lemma step_timers:
  assumes "step e s = Some s'"
    and "timers (limiter s) = (if pending_reset (limiter s) then 1 else 0)"
  shows "timers (limiter s') = (if pending_reset (limiter s') then 1 else 0)"
proof (cases e)
  case Fire
  with assms fire_shape[of s s'] show ?thesis by (auto split: if_splits)
qed (use assms in \<open>auto simp: acquire_enter_def Let_def admit_def resume_def on_exit_def update_def
      split: if_splits list.splits\<close>)

lemma step_in_scope:
  assumes "step e s = Some s'"
    and "reserved_requests (limiter s) = int (in_scope s)"
  shows "reserved_requests (limiter s') = int (in_scope s')"
proof (cases e)
  case Fire
  with assms fire_shape[of s s'] show ?thesis by auto
qed (use assms in \<open>auto simp: acquire_enter_def Let_def admit_def resume_def on_exit_def update_def
      split: if_splits list.splits\<close>)



text \<open>
  C6. In every state that an execution from a fresh limiter reaches, at most one call of
  \<^verbatim>\<open>_reset\<close> is scheduled, and one is scheduled exactly when the pending-reset flag is
  set: the scope exit and the callback schedule only after finding (or making) the flag
  false and set it as they schedule, and the flag is cleared only by the callback, whose
  timer has fired.
\<close>

theorem at_most_one_timer:
  assumes "run (start l) es = Some s"
  shows "timers (limiter s) \<le> 1 \<and> (pending_reset (limiter s) \<longleftrightarrow> timers (limiter s) = 1)"
proof -
  have "timers (limiter (start l)) = (if pending_reset (limiter (start l)) then 1 else 0)"
    by (simp add: start_def init_def)
  with assms have "timers (limiter s) = (if pending_reset (limiter s) then 1 else 0)"
    by (rule run_invariant) (rule step_timers)
  then show ?thesis by (simp split: if_splits)
qed

text \<open>Two overlapping scopes exit, the timer fires, a third scope exits: one timer is scheduled.\<close>

theorem at_most_one_timer_witness:
  "\<exists>s. run (start 3) [Acquire 0, Acquire 0, Exit, Exit, Fire, Acquire 0, Exit] = Some s \<and>
       timers (limiter s) = 1 \<and> pending_reset (limiter s)"
proof -
  define s where "s = the (run (start 3) [Acquire 0, Acquire 0, Exit, Exit, Fire, Acquire 0, Exit])"
  have "run (start 3) [Acquire 0, Acquire 0, Exit, Exit, Fire, Acquire 0, Exit] \<noteq> None"
    by code_simp
  then have r: "run (start 3) [Acquire 0, Acquire 0, Exit, Exit, Fire, Acquire 0, Exit] = Some s"
    unfolding s_def by simp
  have "pending_reset (limiter (the (run (start 3) [Acquire 0, Acquire 0, Exit, Exit, Fire, Acquire 0, Exit])))"
    by code_simp
  then have "pending_reset (limiter s)" unfolding s_def .
  with at_most_one_timer [OF r] r show ?thesis by blast
qed

section \<open>The reserved-requests counter\<close>

text \<open>
  In every state that an execution from a fresh limiter reaches, \<open>reserved_requests\<close> is
  the number of admitted scopes that have not exited, hence never negative.
\<close>

lemma reserved_requests_counts_scopes:
  assumes "run (start l) es = Some s"
  shows "reserved_requests (limiter s) = int (in_scope s) \<and> limit (limiter s) = l"
proof -
  have "limit (limiter (start l)) = l" by (simp add: start_def init_def)
  with assms have 1: "limit (limiter s) = l"
    by (rule run_invariant) (simp add: step_limit)
  have "reserved_requests (limiter (start l)) = int (in_scope (start l))"
    by (simp add: start_def init_def)
  with assms have 2: "reserved_requests (limiter s) = int (in_scope s)"
    by (rule run_invariant) (rule step_in_scope)
  from 1 2 show ?thesis by simp
qed

text \<open>
  C2. The spec keeps \<open>reserved_requests\<close> within \<open>[0, limit]\<close>; the code lets it exceed
  \<open>limit\<close>. With limit 1: a request is admitted, exits, and the timer fires, so that
  \<open>remaining = limit = 1\<close>; a request is admitted and a second one is queued; the first
  exits and the timer fires, which resolves the waiter's future; before the waiter runs, a
  new request finds \<open>remaining - reserved_requests = 1 - 0\<close> and is admitted; then the
  waiter runs. Two requests are reserved, with limit 1. (The event loop runs the waiter
  through a callback that \<^verbatim>\<open>set_result\<close> schedules behind the callbacks that are already
  due, so a task that was due before the timer fired calls \<^verbatim>\<open>acquire\<close> first. \<^verbatim>\<open>_reset\<close>
  counts the waiters it releases against \<open>limit - reserved_requests\<close> and reserves nothing
  for them, where the path without queueing reserves as it passes the gate.) When both
  exit, \<open>remaining\<close> is \<open>-1\<close>, and the gate, which tests for 0, admits every later request:
  three more are reserved at once. The literal 50 of \<^verbatim>\<open>__init__\<close> (C1) is a second way
  past the bound: in a fresh limiter of limit 1 two calls are admitted at once.
\<close>

theorem reserved_requests_exceeds_limit:
  "map_option (limit \<circ> limiter)
     (run (start 1) [Acquire 0, Exit, Fire, Acquire 0, Acquire 0, Exit, Fire, Acquire 0, Resume])
     = Some 1 \<and>
   map_option (reserved_requests \<circ> limiter)
     (run (start 1) [Acquire 0, Exit, Fire, Acquire 0, Acquire 0, Exit, Fire, Acquire 0, Resume])
     = Some 2 \<and>
   map_option (reserved_requests \<circ> limiter)
     (run (start 1) [Acquire 0, Exit, Fire, Acquire 0, Acquire 0, Exit, Fire, Acquire 0, Resume,
                     Exit, Exit, Acquire 0, Acquire 0, Acquire 0])
     = Some 3 \<and>
   map_option (remaining \<circ> limiter)
     (run (start 1) [Acquire 0, Exit, Fire, Acquire 0, Acquire 0, Exit, Fire, Acquire 0, Resume,
                     Exit, Exit, Acquire 0, Acquire 0, Acquire 0])
     = Some (- 1) \<and>
   map_option (reserved_requests \<circ> limiter) (run (start 1) [Acquire 0, Acquire 0]) = Some 2"
  by code_simp

text \<open>
  With more requests reserved than \<open>limit\<close>, \<open>to_release\<close> is negative: the callback logs
  that it releases \<open>-1\<close> requests, and releases none.
\<close>

lemma over_admission_negative_to_release:
  "map_option (to_release \<circ> limiter)
     (run (start 1) [Acquire 0, Exit, Fire, Acquire 0, Acquire 0, Acquire 0, Exit, Fire,
                     Acquire 0, Resume]) = Some (- 1) \<and>
   map_option (last \<circ> logged \<circ> limiter)
     (run (start 1) [Acquire 0, Exit, Fire, Acquire 0, Acquire 0, Acquire 0, Exit, Fire,
                     Acquire 0, Resume, Fire]) = Some (Releasing (- 1))"
  by code_simp

section \<open>The order of release\<close>



end
